theory Spec2Isabelle
  imports Complex_Main "HOL-Library.Word" "HOL-Library.Log_Nat"
begin

unbundle bit_operations_syntax

section \<open>Tags\<close>

text \<open>
  Modelled from the spec: the tag type is declared in the core headers of the runtime,
  which are not among the platform sources. The spec (section 3) gives a tag as the pair
  of a signed 64-bit nanosecond instant and an unsigned 32-bit microstep counter.
\<close>

type_synonym instant_t = "64 word"
type_synonym interval_t = "64 word"
type_synonym microstep_t = "32 word"

record tag =
  time :: instant_t
  microstep :: microstep_t

text \<open>
  Modelled from the spec: the comparison of tags is part of the same missing core code.
  The spec orders tags by comparing the time first, as a signed value, and the microstep
  second, as an unsigned value. The result is -1, 0 or 1.
\<close>

definition tag_compare :: "tag \<Rightarrow> tag \<Rightarrow> int" where
  "tag_compare a b =
     (if time a <s time b then - 1
      else if time b <s time a then 1
      else if microstep a < microstep b then - 1
      else if microstep b < microstep a then 1
      else 0)"

definition tag_less :: "tag \<Rightarrow> tag \<Rightarrow> bool" where
  "tag_less a b = (tag_compare a b = - 1)"

text \<open>The largest instant and the largest microstep, which have no successor.\<close>

definition INSTANT_MAX :: instant_t where
  "INSTANT_MAX = 0x7FFFFFFFFFFFFFFF"

definition MICROSTEP_MAX :: microstep_t where
  "MICROSTEP_MAX = 0xFFFFFFFF"

section \<open>The SOLID platform layer: clock, sleep and critical section\<close>

subsection \<open>IEEE binary64 arithmetic\<close>

text \<open>
  The clock code converts between timer ticks and nanoseconds in \<^verbatim>\<open>double\<close>. A finite
  double is modelled by the rational number it denotes, every operation by the exact
  rational operation followed by rounding to the nearest value with a 53-bit significand,
  ties to even. The exponent range is not limited: every value this code produces from
  64-bit integers and a nonzero tick rate lies far inside the normal range. \<open>binade x\<close>
  is the exponent \<open>e\<close> with \<open>2 powi e \<le> x < 2 powi (e + 1)\<close> for a positive \<open>x\<close>.
\<close>

definition binade :: "rat \<Rightarrow> int" where
  "binade x =
     (let (p, q) = quotient_of x; d = bitlen p - bitlen q
      in if 2 powi d \<le> x then d else d - 1)"

definition round_half_even :: "rat \<Rightarrow> int" where
  "round_half_even m =
     (let f = \<lfloor>m\<rfloor>; r = m - of_int f
      in if r < 1 / 2 then f else if 1 / 2 < r then f + 1 else if even f then f else f + 1)"

definition round_double :: "rat \<Rightarrow> rat" where
  "round_double x =
     (if x = 0 then 0
      else let k = binade \<bar>x\<bar> - 52
           in of_int (round_half_even (x / 2 powi k)) * 2 powi k)"

text \<open>
  The variable \<^verbatim>\<open>_nw_nsecPerTick\<close> holds \<^verbatim>\<open>0.0\<close> from its static initialiser or the
  quotient computed by \<^verbatim>\<open>lf_initialize_clock\<close>, which is finite or, for a tick rate of
  zero, plus infinity.
\<close>

datatype double = Finite rat | PlusInfinity

text \<open>
  A call ends in a value or in a fault: \<open>Undefined\<close> where C leaves the behaviour
  undefined (a double converted to an integer type that cannot hold it, signed overflow,
  a conversion directive applied to an argument of another type), \<open>OutOfBounds i\<close>
  for a store at index \<open>i\<close> outside the array, \<open>Blocked\<close> when the recorded platform
  events end while the call is still waiting, \<open>NotModelled\<close> for a conversion
  directive of \<^verbatim>\<open>printf\<close> outside the part of the C library modelled here.
\<close>

datatype fault = Undefined | OutOfBounds int | Blocked | NotModelled

type_synonym 'a result = "fault + 'a"

definition double_trunc :: "rat \<Rightarrow> int" where
  "double_trunc x = (if 0 \<le> x then \<lfloor>x\<rfloor> else \<lceil>x\<rceil>)"

definition double_to_uint64 :: "rat \<Rightarrow> 64 word result" where
  "double_to_uint64 x =
     (let z = double_trunc x
      in if 0 \<le> z \<and> z < 2 ^ 64 then Inr (word_of_int z) else Inl Undefined)"

definition double_to_int64 :: "rat \<Rightarrow> 64 word result" where
  "double_to_int64 x =
     (let z = double_trunc x
      in if - (2 ^ 63) \<le> z \<and> z < 2 ^ 63 then Inr (word_of_int z) else Inl Undefined)"

definition uint_to_double :: "'a::len word \<Rightarrow> rat" where
  "uint_to_double w = round_double (of_nat (unat w))"

subsection \<open>State and platform events\<close>

text \<open>
  The file-level variables of the platform layer. \<open>critical_section_held\<close> stands for
  the \<^verbatim>\<open>SOLID_CRITICALSECTION_T\<close> object: whether the running context owns it.

  What the platform does while a call runs is a list of events, consumed from the front:
  \<open>Tick t\<close> is the value the next read of the tick counter returns, \<open>Notify\<close> is an
  interrupt handler that calls \<^verbatim>\<open>lf_notify_of_event\<close> before the program's next step.
  Interrupts are delivered where the program reads the timer and where it re-enters the
  critical section.
\<close>

datatype platform_event = Tick "64 word" | Notify

record platform_state =
  lf_async_event :: bool
  nw_nsecPerTick :: double
  critical_section_initialized :: bool
  critical_section_held :: bool

definition lf_notify_of_event :: "platform_state \<Rightarrow> int \<times> platform_state" where
  "lf_notify_of_event s = (0, s\<lparr>lf_async_event := True\<rparr>)"

fun SOLID_TIMER_GetCurrentTick ::
  "platform_state \<Rightarrow> platform_event list \<Rightarrow> (64 word \<times> platform_state \<times> platform_event list) result"
where
  "SOLID_TIMER_GetCurrentTick s [] = Inl Blocked"
| "SOLID_TIMER_GetCurrentTick s (Notify # es) =
     SOLID_TIMER_GetCurrentTick (snd (lf_notify_of_event s)) es"
| "SOLID_TIMER_GetCurrentTick s (Tick t # es) = Inr (t, s, es)"

fun SOLID_EnterCriticalSection ::
  "platform_state \<Rightarrow> platform_event list \<Rightarrow> platform_state \<times> platform_event list"
where
  "SOLID_EnterCriticalSection s (Notify # es) =
     SOLID_EnterCriticalSection (snd (lf_notify_of_event s)) es"
| "SOLID_EnterCriticalSection s es = (s\<lparr>critical_section_held := True\<rparr>, es)"

definition SOLID_LeaveCriticalSection :: "platform_state \<Rightarrow> platform_state" where
  "SOLID_LeaveCriticalSection s = s\<lparr>critical_section_held := False\<rparr>"

subsection \<open>Clock\<close>

text \<open>
  \<^verbatim>\<open>_nw_nsecPerTick = (double)(1000000000.0 / (double)SOLID_TIMER_GetTicksPerSec());\<close>
  The tick rate is a parameter. Division of a positive double by zero gives plus infinity.
\<close>

definition lf_initialize_clock :: "64 word \<Rightarrow> platform_state \<Rightarrow> platform_state" where
  "lf_initialize_clock ticksPerSec s =
     s\<lparr>nw_nsecPerTick :=
         (if ticksPerSec = 0 then PlusInfinity
          else Finite (round_double (1000000000 / uint_to_double ticksPerSec)))\<rparr>"

text \<open>
  \<^verbatim>\<open>(instant_t)((double)tick * _nw_nsecPerTick)\<close>: a tick count times plus infinity is
  an infinity or a NaN, whose conversion to \<^verbatim>\<open>int64_t\<close> is undefined.
\<close>

definition ticks_to_nsec :: "double \<Rightarrow> 64 word \<Rightarrow> instant_t result" where
  "ticks_to_nsec nsecPerTick tick =
     (case nsecPerTick of
        PlusInfinity \<Rightarrow> Inl Undefined
      | Finite c \<Rightarrow> double_to_int64 (round_double (uint_to_double tick * c)))"

text \<open>The call stores the instant through its pointer argument; the model returns it
  beside the status.\<close>

definition lf_clock_gettime ::
  "platform_state \<Rightarrow> platform_event list
     \<Rightarrow> ((int \<times> instant_t) \<times> platform_state \<times> platform_event list) result"
where
  "lf_clock_gettime s es =
     (case SOLID_TIMER_GetCurrentTick s es of
        Inl f \<Rightarrow> Inl f
      | Inr (tick, s', es') \<Rightarrow>
          (case ticks_to_nsec (nw_nsecPerTick s') tick of
             Inl f \<Rightarrow> Inl f
           | Inr t \<Rightarrow> Inr ((0, t), s', es')))"

subsection \<open>Critical section\<close>

definition lf_critical_section_enter ::
  "platform_state \<Rightarrow> platform_event list \<Rightarrow> int \<times> platform_state \<times> platform_event list"
where
  "lf_critical_section_enter s es =
     (let s1 = (if critical_section_initialized s = False
                then s\<lparr>critical_section_initialized := True\<rparr> else s)
      in (0, SOLID_EnterCriticalSection s1 es))"

definition lf_critical_section_exit :: "platform_state \<Rightarrow> int \<times> platform_state" where
  "lf_critical_section_exit s = (0, SOLID_LeaveCriticalSection s)"

subsection \<open>Busy wait and sleep\<close>

lemma GetCurrentTick_shorter:
  "SOLID_TIMER_GetCurrentTick s es = Inr (t, s', es') \<Longrightarrow> length es' < length es"
  by (induction s es rule: SOLID_TIMER_GetCurrentTick.induct) auto

text \<open>The loop \<^verbatim>\<open>for (;;) { now = SOLID_TIMER_GetCurrentTick(); if (now >= until) break; }\<close>.\<close>

function wait_loop ::
  "64 word \<Rightarrow> platform_state \<Rightarrow> platform_event list \<Rightarrow> (platform_state \<times> platform_event list) result"
where
  "wait_loop until s es =
     (case SOLID_TIMER_GetCurrentTick s es of
        Inl f \<Rightarrow> Inl f
      | Inr (now, s', es') \<Rightarrow> if until \<le> now then Inr (s', es') else wait_loop until s' es')"
  by pat_completeness auto
termination
  apply (relation "measure (\<lambda>(until, s, es). length es)")
   apply simp
  apply clarsimp
  apply (erule GetCurrentTick_shorter)
  done

declare wait_loop.simps [simp del]

text \<open>
  \<^verbatim>\<open>(uint64_t)((double)nsec / _nw_nsecPerTick)\<close>: a quotient by zero is an infinity or a
  NaN, whose conversion is undefined; a quotient by plus infinity is zero.
\<close>

definition nsec_to_ticks :: "double \<Rightarrow> 32 word \<Rightarrow> 64 word result" where
  "nsec_to_ticks nsecPerTick nsec =
     (case nsecPerTick of
        PlusInfinity \<Rightarrow> Inr 0
      | Finite c \<Rightarrow>
          if c = 0 then Inl Undefined
          else double_to_uint64 (round_double (uint_to_double nsec / c)))"

definition wait_nsec ::
  "32 word \<Rightarrow> platform_state \<Rightarrow> platform_event list \<Rightarrow> (platform_state \<times> platform_event list) result"
where
  "wait_nsec nsec s es =
     (case SOLID_TIMER_GetCurrentTick s es of
        Inl f \<Rightarrow> Inl f
      | Inr (now, s1, es1) \<Rightarrow>
          (case nsec_to_ticks (nw_nsecPerTick s1) nsec of
             Inl f \<Rightarrow> Inl f
           | Inr d \<Rightarrow>
               (let until = now + d
                in if until \<le> now then Inr (s1, es1) else wait_loop until s1 es1)))"

text \<open>\<^verbatim>\<open>wakeup - now\<close> on \<^verbatim>\<open>int64_t\<close>: undefined when the difference overflows.\<close>

definition sub_instant :: "instant_t \<Rightarrow> instant_t \<Rightarrow> interval_t result" where
  "sub_instant a b =
     (let d = sint a - sint b
      in if - (2 ^ 63) \<le> d \<and> d < 2 ^ 63 then Inr (a - b) else Inl Undefined)"

text \<open>
  The unthreaded build (\<^verbatim>\<open>LF_THREADED\<close> not defined). The argument of \<^verbatim>\<open>wait_nsec\<close>
  is a \<^verbatim>\<open>uint32_t\<close>: the 64-bit duration is converted by keeping its low 32 bits.
\<close>

definition lf_sleep_until_locked ::
  "instant_t \<Rightarrow> platform_state \<Rightarrow> platform_event list
     \<Rightarrow> (int \<times> platform_state \<times> platform_event list) result"
where
  "lf_sleep_until_locked wakeup s es =
     (let s1 = s\<lparr>lf_async_event := False\<rparr>;
          s2 = snd (lf_critical_section_exit s1)
      in case lf_clock_gettime s2 es of
           Inl f \<Rightarrow> Inl f
         | Inr ((_, now), s3, es3) \<Rightarrow>
             (case sub_instant wakeup now of
                Inl f \<Rightarrow> Inl f
              | Inr sleep_duration \<Rightarrow>
                  if sint sleep_duration < 0 then Inr (0, s3, es3)
                  else
                    (case wait_nsec (ucast sleep_duration) s3 es3 of
                       Inl f \<Rightarrow> Inl f
                     | Inr (s4, es4) \<Rightarrow>
                         (let (s5, es5) = snd (lf_critical_section_enter s4 es4)
                          in if lf_async_event s5
                             then Inr (- 1, s5\<lparr>lf_async_event := False\<rparr>, es5)
                             else Inr (0, s5, es5)))))"

text \<open>
  The state at program start (the static initialisers), and the state of a running
  program on a 1 GHz tick counter: clock initialised, critical section held.
\<close>

definition boot :: platform_state where
  "boot = \<lparr>lf_async_event = False, nw_nsecPerTick = Finite 0,
           critical_section_initialized = False, critical_section_held = False\<rparr>"

definition running_1GHz :: platform_state where
  "running_1GHz = fst (snd (lf_critical_section_enter (lf_initialize_clock 1000000000 boot) []))"

text \<open>The clock readings that a list of platform events offers, in order.\<close>

fun clock_readings :: "platform_event list \<Rightarrow> 64 word list" where
  "clock_readings [] = []"
| "clock_readings (Tick t # es) = t # clock_readings es"
| "clock_readings (Notify # es) = clock_readings es"

text \<open>
  What a step takes from the platform events: it consumes a prefix, the notifications in
  that prefix set the flag, and the tick length is left as it was.
\<close>

definition delivered ::
  "platform_state \<Rightarrow> platform_event list \<Rightarrow> platform_state \<Rightarrow> platform_event list \<Rightarrow> bool"
where
  "delivered s es s' es' \<longleftrightarrow>
     (\<exists>pre. es = pre @ es' \<and> lf_async_event s' = (lf_async_event s \<or> Notify \<in> set pre))
     \<and> nw_nsecPerTick s' = nw_nsecPerTick s"

section \<open>Formatted output\<close>

subsection \<open>The formatting of the C library\<close>

text \<open>
  \<^verbatim>\<open>vsnprintf\<close> belongs to the C library. The model covers the directives
  \<^verbatim>\<open>%%\<close>, \<^verbatim>\<open>%s\<close>, \<^verbatim>\<open>%d\<close>, \<^verbatim>\<open>%u\<close>, \<^verbatim>\<open>%lld\<close> and \<^verbatim>\<open>%llu\<close> without flags,
  with \<^verbatim>\<open>int\<close> of 32 and \<^verbatim>\<open>long long\<close> of 64 bits. A variadic argument arrives as
  the bits the caller passed; the directive decides how they are read, and a directive
  that meets an argument of another size, or no argument, is undefined.
\<close>

datatype signedness = Signed | Unsigned

datatype directive = Literal char | ConvStr | ConvInt signedness nat

datatype printf_arg = Arg32 "32 word" | Arg64 "64 word" | ArgStr string

definition cons_result :: "'a \<Rightarrow> 'a list result \<Rightarrow> 'a list result" where
  "cons_result x r = (case r of Inl f \<Rightarrow> Inl f | Inr xs \<Rightarrow> Inr (x # xs))"

definition append_result :: "'a list \<Rightarrow> 'a list result \<Rightarrow> 'a list result" where
  "append_result ys r = (case r of Inl f \<Rightarrow> Inl f | Inr xs \<Rightarrow> Inr (ys @ xs))"

function parse_format :: "string \<Rightarrow> directive list result" where
  "parse_format fmt =
     (if fmt = [] then Inr []
      else if hd fmt \<noteq> CHR ''%'' then cons_result (Literal (hd fmt)) (parse_format (tl fmt))
      else if take 2 fmt = ''%%'' then cons_result (Literal CHR ''%'') (parse_format (drop 2 fmt))
      else if take 2 fmt = ''%s'' then cons_result ConvStr (parse_format (drop 2 fmt))
      else if take 2 fmt = ''%d'' then cons_result (ConvInt Signed 32) (parse_format (drop 2 fmt))
      else if take 2 fmt = ''%u''
        then cons_result (ConvInt Unsigned 32) (parse_format (drop 2 fmt))
      else if take 4 fmt = ''%lld''
        then cons_result (ConvInt Signed 64) (parse_format (drop 4 fmt))
      else if take 4 fmt = ''%llu''
        then cons_result (ConvInt Unsigned 64) (parse_format (drop 4 fmt))
      else Inl NotModelled)"
  by pat_completeness auto
termination
  by (relation "measure length") auto

declare parse_format.simps [simp del]

function decimal :: "nat \<Rightarrow> string" where
  "decimal n =
     (if n < 10 then [''0123456789'' ! n]
      else decimal (n div 10) @ [''0123456789'' ! (n mod 10)])"
  by pat_completeness auto
termination
  by (relation "measure id") auto

declare decimal.simps [simp del]

definition signed_decimal :: "int \<Rightarrow> string" where
  "signed_decimal i = (if i < 0 then CHR ''-'' # decimal (nat (- i)) else decimal (nat i))"

text \<open>The integer that a directive reads from an argument of its size.\<close>

fun int_arg :: "signedness \<Rightarrow> nat \<Rightarrow> printf_arg \<Rightarrow> int option" where
  "int_arg sg bits (Arg32 w) =
     (if bits = 32 then Some (case sg of Signed \<Rightarrow> sint w | Unsigned \<Rightarrow> uint w) else None)"
| "int_arg sg bits (Arg64 w) =
     (if bits = 64 then Some (case sg of Signed \<Rightarrow> sint w | Unsigned \<Rightarrow> uint w) else None)"
| "int_arg sg bits (ArgStr s) = None"

fun expand_directives :: "directive list \<Rightarrow> printf_arg list \<Rightarrow> string result" where
  "expand_directives [] ap = Inr []"
| "expand_directives (Literal c # ds) ap = cons_result c (expand_directives ds ap)"
| "expand_directives (ConvStr # ds) (ArgStr s # ap) = append_result s (expand_directives ds ap)"
| "expand_directives (ConvInt sg bits # ds) (a # ap) =
     (case int_arg sg bits a of
        None \<Rightarrow> Inl Undefined
      | Some v \<Rightarrow> append_result (signed_decimal v) (expand_directives ds ap))"
| "expand_directives ds ap = Inl Undefined"

definition printf_expand :: "string \<Rightarrow> printf_arg list \<Rightarrow> string result" where
  "printf_expand fmt ap =
     (case parse_format fmt of Inl f \<Rightarrow> Inl f | Inr ds \<Rightarrow> expand_directives ds ap)"

text \<open>
  \<^verbatim>\<open>vsnprintf(buf, n, fmt, ap)\<close> stores at most \<open>n - 1\<close> characters of the expansion
  and a terminating NUL, and returns the length of the whole expansion, or a negative
  value when that length is not an \<^verbatim>\<open>int\<close>.
\<close>

definition vsnprintf ::
  "string \<Rightarrow> nat \<Rightarrow> string \<Rightarrow> printf_arg list \<Rightarrow> (int \<times> string) result"
where
  "vsnprintf buf n fmt ap =
     (case printf_expand fmt ap of
        Inl f \<Rightarrow> Inl f
      | Inr out \<Rightarrow>
          (let k = min (length out) (n - 1);
               buf' = (if n = 0 then buf else take k out @ CHR 0x00 # drop (k + 1) buf)
           in Inr (if length out \<le> 2147483647 then int (length out) else - 1, buf')))"

subsection \<open>The print functions of the platform layer\<close>

text \<open>A store \<^verbatim>\<open>buf[i] = c\<close> into a local array.\<close>

definition store :: "string \<Rightarrow> int \<Rightarrow> char \<Rightarrow> string result" where
  "store buf i c =
     (if 0 \<le> i \<and> i < int (length buf) then Inr (buf[nat i := c]) else Inl (OutOfBounds i))"

text \<open>\<^verbatim>\<open>SOLID_LOG_write(buf, len)\<close>: the bytes that reach the log.\<close>

definition SOLID_LOG_write :: "string \<Rightarrow> int \<Rightarrow> string" where
  "SOLID_LOG_write buf len = take (nat len) buf"

text \<open>
  The build without \<^verbatim>\<open>USE_NETLOGGER\<close>. The local \<^verbatim>\<open>char buf[1024]\<close> starts with
  indeterminate contents, here NUL bytes. The functions give the bytes written to the
  log; \<^verbatim>\<open>printf\<close> also gives its return value.
\<close>

definition printf :: "string \<Rightarrow> printf_arg list \<Rightarrow> (int \<times> string) result" where
  "printf fmt ap =
     (let buf = replicate 1024 (CHR 0x00)
      in case vsnprintf buf 1024 fmt ap of
           Inl f \<Rightarrow> Inl f
         | Inr (ret, buf) \<Rightarrow>
             (case store buf ret (CHR 0x00) of
                Inl f \<Rightarrow> Inl f
              | Inr buf \<Rightarrow> (let ret = ret + 1 in Inr (ret, SOLID_LOG_write buf ret))))"

definition lf_print :: "string \<Rightarrow> printf_arg list \<Rightarrow> string result" where
  "lf_print format ap =
     (let buf = replicate 1024 (CHR 0x00)
      in case vsnprintf buf 1024 format ap of
           Inl f \<Rightarrow> Inl f
         | Inr (ret, buf) \<Rightarrow>
             (case store buf ret (CHR 0x0A) of
                Inl f \<Rightarrow> Inl f
              | Inr buf \<Rightarrow>
                  (let ret = ret + 1
                   in case store buf ret (CHR 0x00) of
                        Inl f \<Rightarrow> Inl f
                      | Inr buf \<Rightarrow> (let ret = ret + 1 in Inr (SOLID_LOG_write buf ret)))))"

subsection \<open>The format macros for tags\<close>

text \<open>
  \<^verbatim>\<open>PRIu32\<close> comes from \<^verbatim>\<open>inttypes.h\<close>: the directive for an unsigned 32-bit
  integer. The header under \<^verbatim>\<open>include/core/platform\<close> defines \<^verbatim>\<open>PRINTF_TIME\<close> as
  \<^verbatim>\<open>"%llu"\<close>; the second copy of the header defines it as \<^verbatim>\<open>"%" PRIu32\<close>.
\<close>

definition PRIu32 :: string where
  "PRIu32 = ''u''"

definition PRINTF_TIME :: string where
  "PRINTF_TIME = ''%llu''"

definition PRINTF_MICROSTEP :: string where
  "PRINTF_MICROSTEP = ''%'' @ PRIu32"

definition PRINTF_TAG :: string where
  "PRINTF_TAG = ''('' @ PRINTF_TIME @ '', '' @ PRINTF_MICROSTEP @ '')''"

definition PRINTF_TIME_second_header :: string where
  "PRINTF_TIME_second_header = ''%'' @ PRIu32"

definition PRINTF_TAG_second_header :: string where
  "PRINTF_TAG_second_header =
     ''('' @ PRINTF_TIME_second_header @ '', '' @ PRINTF_MICROSTEP @ '')''"

section \<open>Memory allocation\<close>

text \<open>
  Memory is a map from addresses to bytes, and the null pointer is the address 0.
  \<^verbatim>\<open>malloc\<close> belongs to the C library: its answer to a request, the address of a block
  of at least that many bytes or 0, is a parameter. The width of \<^verbatim>\<open>size_t\<close> is the word
  length \<open>'a\<close>.
\<close>

type_synonym memory = "nat \<Rightarrow> 8 word"

definition memset :: "memory \<Rightarrow> nat \<Rightarrow> 8 word \<Rightarrow> nat \<Rightarrow> memory" where
  "memset m p c len = (\<lambda>a. if p \<le> a \<and> a < p + len then c else m a)"

definition calloc ::
  "('a::len word \<Rightarrow> nat) \<Rightarrow> memory \<Rightarrow> 'a word \<Rightarrow> 'a word \<Rightarrow> nat \<times> memory"
where
  "calloc malloc m n sz =
     (let mem = malloc (n * sz)
      in if mem \<noteq> 0 then (mem, memset m mem 0 (unat (n * sz))) else (mem, m))"

section \<open>Properties of the rounding model\<close>

lemma bitlen_powi_bounds:
  assumes "0 < p"
  shows "(2::rat) powi (bitlen p - 1) \<le> of_int p" and "of_int p < (2::rat) powi (bitlen p)"
proof -
  from assms have b1: "1 \<le> bitlen p"
    by (simp add: bitlen_alt_def)
  from bitlen_bounds [OF assms]
  have lo: "2 ^ nat (bitlen p - 1) \<le> p" and hi: "p < 2 ^ nat (bitlen p)" by auto
  have "(of_int (2 ^ nat (bitlen p - 1)) :: rat) \<le> of_int p"
    using lo of_int_le_iff by blast
  then show "(2::rat) powi (bitlen p - 1) \<le> of_int p"
    using b1 by (simp add: power_int_def)
  have "(of_int p :: rat) < of_int (2 ^ nat (bitlen p))"
    using hi of_int_less_iff by blast
  then show "of_int p < (2::rat) powi (bitlen p)"
    using b1 by (simp add: power_int_def)
qed

lemma binade_bounds:
  assumes "0 < x"
  shows "2 powi (binade x) \<le> x \<and> x < 2 powi (binade x + 1)"
proof -
  obtain p q where pq: "quotient_of x = (p, q)" by (cases "quotient_of x")
  then have q: "0 < q" and x: "x = of_int p / of_int q"
    using quotient_of_denom_pos quotient_of_div by blast+
  have p: "0 < p" using assms q x
    by (simp add: zero_less_divide_iff)
  let ?d = "bitlen p - bitlen q"
  note bp = bitlen_powi_bounds [OF p] and bq = bitlen_powi_bounds [OF q]
  have qpos: "(0::rat) < of_int q" using q by simp
  have "x < 2 powi (bitlen p) / of_int q"
    unfolding x using bp(2) qpos by (simp add: divide_strict_right_mono)
  also have "\<dots> \<le> 2 powi (bitlen p) / 2 powi (bitlen q - 1)"
    using bq(1) by (intro divide_left_mono) (auto intro: mult_pos_pos qpos)
  also have "\<dots> = 2 powi (?d + 1)"
    by (simp add: power_int_diff power_int_add)
  finally have "x < 2 powi (?d + 1)" .
  moreover have "2 powi (?d - 1) \<le> x"
  proof -
    have "(2::rat) powi (?d - 1) = 2 powi (bitlen p - 1) / 2 powi (bitlen q)"
      by (simp add: power_int_diff power_int_add)
    also have "\<dots> \<le> 2 powi (bitlen p - 1) / of_int q"
      using bq(2) by (intro divide_left_mono) (auto intro: mult_pos_pos qpos)
    also have "\<dots> \<le> x"
      unfolding x using bp(1) qpos by (simp add: divide_right_mono)
    finally show ?thesis .
  qed
  ultimately show ?thesis
    using pq by (auto simp: binade_def Let_def)
qed


lemma binade_unique:
  assumes "0 < x" "2 powi e \<le> x" "x < 2 powi (e + 1)"
  shows "binade x = e"
proof (rule ccontr)
  assume ne: "binade x \<noteq> e"
  note b = binade_bounds [OF assms(1)]
  show False
  proof (cases "binade x < e")
    case True
    then have "(2::rat) powi (binade x + 1) \<le> 2 powi e"
      by (intro power_int_increasing) auto
    with b assms show False by linarith
  next
    case False
    with ne have "(2::rat) powi (e + 1) \<le> 2 powi (binade x)"
      by (intro power_int_increasing) auto
    with b assms show False by linarith
  qed
qed

lemma binade_mono:
  assumes "0 < x" "x \<le> y"
  shows "binade x \<le> binade y"
proof (rule ccontr)
  assume "\<not> binade x \<le> binade y"
  then have "(2::rat) powi (binade y + 1) \<le> 2 powi (binade x)"
    by (intro power_int_increasing) auto
  moreover from assms have "0 < y" by simp
  ultimately show False
    using binade_bounds [OF assms(1)] binade_bounds [OF \<open>0 < y\<close>] assms(2) by linarith
qed

lemma round_half_even_of_int [simp]: "round_half_even (of_int n) = n"
  by (simp add: round_half_even_def)

lemma round_half_even_numeral [simp]: "round_half_even (numeral n) = numeral n"
  using round_half_even_of_int [of "numeral n"] by simp

lemma round_half_even_mono:
  assumes "a \<le> b"
  shows "round_half_even a \<le> round_half_even b"
proof (cases "\<lfloor>a\<rfloor> = \<lfloor>b\<rfloor>")
  case True
  with assms show ?thesis
    by (auto simp: round_half_even_def Let_def)
next
  case False
  with assms have "\<lfloor>a\<rfloor> + 1 \<le> \<lfloor>b\<rfloor>"
    using floor_mono [OF assms] by linarith
  moreover have "round_half_even a \<le> \<lfloor>a\<rfloor> + 1"
    by (simp add: round_half_even_def Let_def)
  moreover have "\<lfloor>b\<rfloor> \<le> round_half_even b"
    by (simp add: round_half_even_def Let_def)
  ultimately show ?thesis by linarith
qed

lemma round_double_pos:
  assumes "0 < x"
  shows "round_double x = of_int (round_half_even (x / 2 powi (binade x - 52))) * 2 powi (binade x - 52)"
  using assms by (simp add: round_double_def Let_def)

lemma round_double_binade:
  assumes "0 < x"
  shows "2 powi (binade x) \<le> round_double x" and "round_double x \<le> 2 powi (binade x + 1)"
proof -
  let ?k = "binade x - 52"
  let ?m = "x / 2 powi ?k"
  have kpos: "(0::rat) < 2 powi ?k" by simp
  note b = binade_bounds [OF assms]
  have e1: "(2::rat) powi (binade x) = 2 ^ 52 * 2 powi ?k"
    by (simp add: power_int_diff)
  have e2: "(2::rat) powi (binade x + 1) = 2 ^ 53 * 2 powi ?k"
    by (simp add: power_int_diff power_int_add)
  have "of_int (2 ^ 52) \<le> ?m"
    using b e1 kpos by (simp add: pos_le_divide_eq)
  from round_half_even_mono [OF this] have lo: "2 ^ 52 \<le> round_half_even ?m"
    by simp
  have "?m \<le> of_int (2 ^ 53)"
    using b e2 kpos by (simp add: pos_divide_le_eq)
  from round_half_even_mono [OF this] have hi: "round_half_even ?m \<le> 2 ^ 53"
    by simp
  have "(2 ^ 52 :: rat) \<le> of_int (round_half_even ?m)"
    using lo of_int_le_iff [of "2 ^ 52" "round_half_even ?m", where ?'a = rat] by simp
  then show "2 powi (binade x) \<le> round_double x"
    unfolding round_double_pos [OF assms] e1 using kpos by (simp add: mult_right_mono)
  have "(of_int (round_half_even ?m) :: rat) \<le> 2 ^ 53"
    using hi of_int_le_iff [of "round_half_even ?m" "2 ^ 53", where ?'a = rat] by simp
  then show "round_double x \<le> 2 powi (binade x + 1)"
    unfolding round_double_pos [OF assms] e2 using kpos by (simp add: mult_right_mono)
qed

lemma round_double_mono_pos:
  assumes "0 < x" "x \<le> y"
  shows "round_double x \<le> round_double y"
proof -
  from assms have y: "0 < y" by simp
  show ?thesis
  proof (cases "binade x = binade y")
    case True
    let ?k = "binade y - 52"
    have kpos: "(0::rat) < 2 powi ?k" by simp
    have "x / 2 powi ?k \<le> y / 2 powi ?k"
      using assms(2) kpos by (simp add: divide_right_mono)
    from round_half_even_mono [OF this]
    have "(of_int (round_half_even (x / 2 powi ?k)) :: rat) \<le> of_int (round_half_even (y / 2 powi ?k))"
      by simp
    then show ?thesis
      unfolding round_double_pos [OF assms(1)] round_double_pos [OF y] True
      using kpos by (simp add: mult_right_mono)
  next
    case False
    with binade_mono [OF assms] have "binade x + 1 \<le> binade y" by simp
    then have "(2::rat) powi (binade x + 1) \<le> 2 powi (binade y)"
      by (intro power_int_increasing) auto
    with round_double_binade(2) [OF assms(1)] round_double_binade(1) [OF y]
    show ?thesis by linarith
  qed
qed

lemma round_double_nonneg: "0 \<le> x \<Longrightarrow> 0 \<le> round_double x"
proof (cases "x = 0")
  case True
  then show ?thesis by (simp add: round_double_def)
next
  case False
  assume "0 \<le> x"
  with False have x: "0 < x" by simp
  have "(0::rat) \<le> 2 powi (binade x)" by simp
  with round_double_binade(1) [OF x] show ?thesis by linarith
qed

lemma round_double_mono:
  assumes "0 \<le> x" "x \<le> y"
  shows "round_double x \<le> round_double y"
proof (cases "x = 0")
  case True
  with assms have "0 \<le> y" by simp
  from round_double_nonneg [OF this] True show ?thesis
    by (simp add: round_double_def)
next
  case False
  with assms have "0 < x" by simp
  from round_double_mono_pos [OF this assms(2)] show ?thesis .
qed

lemma round_double_of_nat_exact:
  assumes "n \<le> 2 ^ 53"
  shows "round_double (of_nat n) = of_nat n"
proof (cases "n = 0")
  case True
  then show ?thesis by (simp add: round_double_def)
next
  case False
  then have x: "(0::rat) < of_nat n" by simp
  let ?x = "of_nat n :: rat"
  let ?e = "binade ?x"
  note b = binade_bounds [OF x]
  show ?thesis
  proof (cases "n = 2 ^ 53")
    case True
    have "binade ?x = 53"
      by (rule binade_unique) (simp_all add: True)
    then show ?thesis
      using x by (simp add: round_double_pos True)
  next
    case False
    with assms have lt: "n < 2 ^ 53" by simp
    have "?e \<le> 52"
    proof (rule ccontr)
      assume "\<not> ?e \<le> 52"
      then have "(2::rat) powi 53 \<le> 2 powi ?e"
        by (intro power_int_increasing) auto
      moreover have "?x < 2 ^ 53"
        using lt of_nat_less_iff [of n "2 ^ 53", where ?'a = rat] by simp
      ultimately show False using b by simp
    qed
    define j where "j = nat (52 - ?e)"
    have k: "?e - 52 = - int j"
      using \<open>?e \<le> 52\<close> by (simp add: j_def)
    have p: "(2::rat) powi (?e - 52) = 1 / 2 ^ j"
      unfolding k by (simp add: power_int_minus divide_inverse)
    have "?x / 2 powi (?e - 52) = of_int (int n * 2 ^ j)"
      unfolding p by simp
    then have "round_half_even (?x / 2 powi (?e - 52)) = int n * 2 ^ j"
      by (simp only: round_half_even_of_int)
    then show ?thesis
      unfolding round_double_pos [OF x] p by simp
  qed
qed

lemma round_double_scale:
  assumes "0 < x"
  shows "round_double (x * 2 powi j) = round_double x * 2 powi j"
proof -
  have jpos: "(0::rat) < 2 powi j" by simp
  with assms have xj: "0 < x * 2 powi j" by simp
  note b = binade_bounds [OF assms]
  have "binade (x * 2 powi j) = binade x + j"
  proof (rule binade_unique [OF xj])
    show "2 powi (binade x + j) \<le> x * 2 powi j"
      using b jpos by (simp add: power_int_add)
    show "x * 2 powi j < 2 powi (binade x + j + 1)"
      using b jpos by (simp add: power_int_add)
  qed
  then have k: "binade (x * 2 powi j) - 52 = (binade x - 52) + j" by simp
  have "x * 2 powi j / 2 powi (binade x - 52 + j) = x / 2 powi (binade x - 52)"
    by (simp add: power_int_add)
  then show ?thesis
    unfolding round_double_pos [OF xj] round_double_pos [OF assms] k
    by (simp add: power_int_add)
qed

lemma round_double_power2 [simp]: "round_double (2 ^ n) = 2 ^ n"
  using round_double_scale [of 1 "int n"] round_double_of_nat_exact [of 1] by simp

lemma round_double_numeral [simp]:
  "numeral k \<le> (2 ^ 53 :: nat) \<Longrightarrow> round_double (numeral k) = numeral k"
  using round_double_of_nat_exact [of "numeral k"] by simp

lemma round_double_0 [simp]: "round_double 0 = 0"
  by (simp add: round_double_def)

lemma round_double_1 [simp]: "round_double 1 = 1"
  using round_double_of_nat_exact [of 1] by simp

lemma uint_to_double_exact:
  "unat w \<le> 2 ^ 53 \<Longrightarrow> uint_to_double w = of_nat (unat w)"
  using round_double_of_nat_exact [of "unat w"] by (simp add: uint_to_double_def)

lemma wait_loop_Nil [simp]: "wait_loop until s [] = Inl Blocked"
  by (subst wait_loop.simps) simp

lemma wait_loop_Notify [simp]:
  "wait_loop until s (Notify # es) = wait_loop until (snd (lf_notify_of_event s)) es"
  by (subst wait_loop.simps, subst (2) wait_loop.simps) simp

lemma wait_loop_Tick [simp]:
  "wait_loop until s (Tick t # es) = (if until \<le> t then Inr (s, es) else wait_loop until s es)"
  by (subst wait_loop.simps) simp

lemma running_1GHz_eq: "running_1GHz = \<lparr>lf_async_event = False, nw_nsecPerTick = Finite 1,
           critical_section_initialized = True, critical_section_held = True\<rparr>"
  by (simp add: running_1GHz_def boot_def lf_initialize_clock_def lf_critical_section_enter_def
      uint_to_double_exact)

section \<open>The order on tags\<close>

lemma tag_less_iff:
  "tag_less a b \<longleftrightarrow>
     sint (time a) < sint (time b) \<or>
     (sint (time a) = sint (time b) \<and> unat (microstep a) < unat (microstep b))"
  by (auto simp: tag_less_def tag_compare_def word_sless_alt word_less_nat_alt)

lemma tag_less_irrefl: "\<not> tag_less a a"
  by (simp add: tag_less_iff)

lemma tag_less_trans: "tag_less a b \<Longrightarrow> tag_less b c \<Longrightarrow> tag_less a c"
  by (auto simp: tag_less_iff)

lemma tag_less_total: "tag_less a b \<or> a = b \<or> tag_less b a" for a b :: tag
proof (cases "sint (time a) = sint (time b) \<and> unat (microstep a) = unat (microstep b)")
  case True
  then have "time a = time b" "microstep a = microstep b"
    by (auto intro: signed_word_eqI word_unat_eq_iff [THEN iffD2])
  then have "a = b" by simp
  then show ?thesis by simp
next
  case False
  then show ?thesis by (auto simp: tag_less_iff)
qed

lemma unat_succ_microstep:
  "m \<noteq> MICROSTEP_MAX \<Longrightarrow> unat (m + 1) = unat m + 1" for m :: microstep_t
proof -
  assume ne: "m \<noteq> MICROSTEP_MAX"
  have "unat m \<noteq> unat MICROSTEP_MAX"
    using ne word_unat_eq_iff by blast
  moreover have "unat MICROSTEP_MAX = 2 ^ 32 - 1"
    by (simp add: MICROSTEP_MAX_def)
  moreover have "unat m < 2 ^ 32"
    using unsigned_less [of m] by simp
  ultimately have "unat m + 1 < 2 ^ 32"
    by simp
  then show ?thesis
    by (simp add: unat_word_ariths)
qed

lemma sint_succ_instant:
  "t \<noteq> INSTANT_MAX \<Longrightarrow> sint (t + 1) = sint t + 1" for t :: instant_t
proof -
  assume ne: "t \<noteq> INSTANT_MAX"
  have "sint t \<noteq> sint INSTANT_MAX"
    using ne signed_word_eqI by blast
  moreover have "sint INSTANT_MAX = 2 ^ 63 - 1"
    by (simp add: INSTANT_MAX_def)
  moreover have "sint t < 2 ^ 63" "- (2 ^ 63) \<le> sint t"
    using sint_lt [of t] sint_ge [of t] by simp_all
  ultimately have "- (2 ^ 63) \<le> sint t + 1" "sint t + 1 < 2 ^ 63"
    by simp_all
  then show ?thesis
    by (simp add: sint_word_ariths signed_take_bit_int_eq_self)
qed

text \<open>
  Claim C5. Comparing the time first and the microstep second is a strict total order on
  tags: irreflexive, transitive, and any two different tags are ordered one way. For a
  time \<open>t\<close> and a microstep \<open>m\<close> whose successors exist (the microstep is not the
  largest 32-bit value, the time not the largest 64-bit instant),
  \<open>(t, m) < (t, m + 1) < (t + 1, 0)\<close>.
\<close>

theorem tag_compare_strict_total_order:
  "\<not> tag_less a a
   \<and> (tag_less a b \<longrightarrow> tag_less b c \<longrightarrow> tag_less a c)
   \<and> (tag_less a b \<or> a = b \<or> tag_less b a)
   \<and> (m \<noteq> MICROSTEP_MAX \<longrightarrow>
        tag_less \<lparr>time = t, microstep = m\<rparr> \<lparr>time = t, microstep = m + 1\<rparr>)
   \<and> (t \<noteq> INSTANT_MAX \<longrightarrow>
        tag_less \<lparr>time = t, microstep = m + 1\<rparr> \<lparr>time = t + 1, microstep = 0\<rparr>)"
proof (intro conjI impI)
  show "\<not> tag_less a a" by (rule tag_less_irrefl)
  show "tag_less a c" if "tag_less a b" "tag_less b c"
    using that by (rule tag_less_trans)
  show "tag_less a b \<or> a = b \<or> tag_less b a" by (rule tag_less_total)
  show "tag_less \<lparr>time = t, microstep = m\<rparr> \<lparr>time = t, microstep = m + 1\<rparr>"
    if "m \<noteq> MICROSTEP_MAX"
    using unat_succ_microstep [OF that] by (simp add: tag_less_iff)
  show "tag_less \<lparr>time = t, microstep = m + 1\<rparr> \<lparr>time = t + 1, microstep = 0\<rparr>"
    if "t \<noteq> INSTANT_MAX"
    using sint_succ_instant [OF that] by (simp add: tag_less_iff)
qed

theorem tag_compare_strict_total_order_witness:
  "(7 :: microstep_t) \<noteq> MICROSTEP_MAX \<and> (100 :: instant_t) \<noteq> INSTANT_MAX
   \<and> tag_less \<lparr>time = 100, microstep = 7\<rparr> \<lparr>time = 100, microstep = 8\<rparr>
   \<and> tag_less \<lparr>time = 100, microstep = 8\<rparr> \<lparr>time = 101, microstep = 0\<rparr>
   \<and> tag_less \<lparr>time = 100, microstep = 7\<rparr> \<lparr>time = 101, microstep = 0\<rparr>
   \<and> tag_compare \<lparr>time = 100, microstep = 7\<rparr> \<lparr>time = 101, microstep = 0\<rparr> = - 1"
proof -
  have m: "(7 :: microstep_t) \<noteq> MICROSTEP_MAX" by (simp add: MICROSTEP_MAX_def)
  have t: "(100 :: instant_t) \<noteq> INSTANT_MAX" by (simp add: INSTANT_MAX_def)
  from tag_compare_strict_total_order
    [of "\<lparr>time = 100, microstep = 7\<rparr>" "\<lparr>time = 100, microstep = 8\<rparr>"
        "\<lparr>time = 101, microstep = 0\<rparr>" 7 100]
  show ?thesis using m t by (simp add: tag_less_def)
qed

section \<open>The sleep: returned status, deadline and critical section\<close>

lemmas sleep_eval =
  lf_sleep_until_locked_def lf_critical_section_exit_def SOLID_LeaveCriticalSection_def
  lf_clock_gettime_def ticks_to_nsec_def lf_critical_section_enter_def wait_nsec_def
  nsec_to_ticks_def sub_instant_def double_to_int64_def double_to_uint64_def
  double_trunc_def Let_def uint_to_double_exact lf_notify_of_event_def

lemma delivered_refl: "delivered s es s es"
  by (auto simp: delivered_def)

lemma delivered_trans:
  assumes "delivered s es s1 es1" "delivered s1 es1 s2 es2"
  shows "delivered s es s2 es2"
proof -
  from assms(1) obtain p1 where p1: "es = p1 @ es1"
      "lf_async_event s1 = (lf_async_event s \<or> Notify \<in> set p1)"
      "nw_nsecPerTick s1 = nw_nsecPerTick s"
    by (auto simp: delivered_def)
  from assms(2) obtain p2 where p2: "es1 = p2 @ es2"
      "lf_async_event s2 = (lf_async_event s1 \<or> Notify \<in> set p2)"
      "nw_nsecPerTick s2 = nw_nsecPerTick s1"
    by (auto simp: delivered_def)
  from p1 p2 have "es = (p1 @ p2) @ es2"
      "lf_async_event s2 = (lf_async_event s \<or> Notify \<in> set (p1 @ p2))"
    by auto
  with p1(3) p2(3) show ?thesis
    unfolding delivered_def by metis
qed

lemma delivered_Notify:
  assumes "delivered (snd (lf_notify_of_event s)) es s' es'"
  shows "delivered s (Notify # es) s' es'"
proof -
  from assms obtain pre where pre: "es = pre @ es'" "lf_async_event s'"
      "nw_nsecPerTick s' = nw_nsecPerTick s"
    by (auto simp: delivered_def lf_notify_of_event_def)
  then have "Notify # es = (Notify # pre) @ es'"
      "lf_async_event s' = (lf_async_event s \<or> Notify \<in> set (Notify # pre))"
    by auto
  with pre(3) show ?thesis
    unfolding delivered_def by metis
qed

lemma GetCurrentTick_delivered:
  "SOLID_TIMER_GetCurrentTick s es = Inr (t, s', es') \<Longrightarrow> delivered s es s' es'"
proof (induction s es rule: SOLID_TIMER_GetCurrentTick.induct)
  case (1 s)
  then show ?case by simp
next
  case (2 s es)
  then have "delivered (snd (lf_notify_of_event s)) es s' es'" by simp
  then show ?case by (rule delivered_Notify)
next
  case (3 s t' es)
  then show ?case
    unfolding delivered_def by (auto intro: exI [of _ "[Tick t']"])
qed

lemma GetCurrentTick_readings:
  "clock_readings es = t # ts \<Longrightarrow>
     \<exists>s' es'. SOLID_TIMER_GetCurrentTick s es = Inr (t, s', es') \<and> clock_readings es' = ts"
  by (induction s es rule: SOLID_TIMER_GetCurrentTick.induct) auto

lemma wait_loop_delivered:
  "wait_loop until s es = Inr (s', es') \<Longrightarrow> delivered s es s' es'"
proof (induction until s es rule: wait_loop.induct)
  case (1 until s es)
  show ?case
  proof (cases "SOLID_TIMER_GetCurrentTick s es")
    case (Inl f)
    with "1.prems" show ?thesis by (subst (asm) wait_loop.simps) simp
  next
    case (Inr r)
    obtain now s1 es1 where r: "r = (now, s1, es1)" by (cases r)
    note d1 = GetCurrentTick_delivered [OF Inr [unfolded r]]
    show ?thesis
    proof (cases "until \<le> now")
      case True
      with "1.prems" Inr r have "s' = s1" "es' = es1"
        by (subst (asm) wait_loop.simps, simp)+
      with d1 show ?thesis by simp
    next
      case False
      with "1.prems" Inr r have "wait_loop until s1 es1 = Inr (s', es')"
        by (subst (asm) wait_loop.simps) simp
      from "1.IH" [OF Inr r [symmetric] refl False this] d1
      show ?thesis by (rule delivered_trans [rotated])
    qed
  qed
qed

lemma wait_loop_returns:
  "\<exists>t \<in> set (clock_readings es). until \<le> t \<Longrightarrow> \<exists>s' es'. wait_loop until s es = Inr (s', es')"
proof (induction es arbitrary: s)
  case Nil
  then show ?case by simp
next
  case (Cons e es)
  then show ?case by (cases e) auto
qed

lemma EnterCriticalSection_delivered:
  "SOLID_EnterCriticalSection s es = (s', es') \<Longrightarrow> delivered s es s' es'"
proof (induction es arbitrary: s)
  case Nil
  then show ?case by (auto simp: delivered_def)
next
  case (Cons e es)
  show ?case
  proof (cases e)
    case (Tick t)
    with Cons.prems show ?thesis by (auto simp: delivered_def)
  next
    case Notify
    with Cons.prems
    have "SOLID_EnterCriticalSection (snd (lf_notify_of_event s)) es = (s', es')" by simp
    from Cons.IH [OF this] show ?thesis
      unfolding Notify by (rule delivered_Notify)
  qed
qed

lemma wait_nsec_returns:
  assumes r: "clock_readings es = t1 # ts"
      and n: "nsec_to_ticks (nw_nsecPerTick s) nsec = Inr n"
      and reach: "\<exists>t \<in> set (t1 # ts). t1 + n \<le> t"
  shows "\<exists>s' es'. wait_nsec nsec s es = Inr (s', es') \<and> delivered s es s' es'"
proof -
  from GetCurrentTick_readings [OF r] obtain s1 es1
    where g: "SOLID_TIMER_GetCurrentTick s es = Inr (t1, s1, es1)"
      and r1: "clock_readings es1 = ts" by blast
  note d1 = GetCurrentTick_delivered [OF g]
  then have npt: "nw_nsecPerTick s1 = nw_nsecPerTick s" by (simp add: delivered_def)
  show ?thesis
  proof (cases "t1 + n \<le> t1")
    case True
    with g n npt have "wait_nsec nsec s es = Inr (s1, es1)"
      by (simp add: wait_nsec_def)
    with d1 show ?thesis by blast
  next
    case False
    with reach r1 have "\<exists>t \<in> set (clock_readings es1). t1 + n \<le> t" by auto
    from wait_loop_returns [OF this] obtain s' es'
      where w: "wait_loop (t1 + n) s1 es1 = Inr (s', es')" by blast
    from g n npt False w have "wait_nsec nsec s es = Inr (s', es')"
      by (simp add: wait_nsec_def)
    moreover from d1 wait_loop_delivered [OF w] have "delivered s es s' es'"
      by (rule delivered_trans)
    ultimately show ?thesis by blast
  qed
qed

text \<open>
  Claim C1. In the unthreaded runtime, take a call of \<^verbatim>\<open>lf_sleep_until_locked\<close> whose
  wakeup instant is not in the past when it reads the clock, and whose busy wait sees
  the clock reach its deadline: \<open>t0\<close> is the reading taken by \<^verbatim>\<open>lf_clock_gettime\<close>,
  \<open>t1\<close> the first reading of \<^verbatim>\<open>wait_nsec\<close>, \<open>n\<close> the ticks to wait. The call
  returns, having consumed a prefix \<open>pre\<close> of the platform events; it returns -1 if
  an interrupt called \<^verbatim>\<open>lf_notify_of_event\<close> in that prefix, and 0 if none did.
\<close>

theorem sleep_until_reports_async_event:
  assumes readings: "clock_readings es = t0 # t1 # ts"
      and now: "ticks_to_nsec (nw_nsecPerTick s) t0 = Inr now"
      and duration: "sub_instant wakeup now = Inr d" "0 \<le> sint d"
      and ticks: "nsec_to_ticks (nw_nsecPerTick s) (ucast d) = Inr n"
      and reached: "\<exists>t \<in> set (t1 # ts). t1 + n \<le> t"
  shows "\<exists>pre es' s'. es = pre @ es' \<and>
           lf_sleep_until_locked wakeup s es =
             Inr (if Notify \<in> set pre then - 1 else 0, s', es')"
proof -
  define s2 where "s2 = snd (lf_critical_section_exit (s\<lparr>lf_async_event := False\<rparr>))"
  have s2: "\<not> lf_async_event s2" "nw_nsecPerTick s2 = nw_nsecPerTick s"
    by (simp_all add: s2_def lf_critical_section_exit_def SOLID_LeaveCriticalSection_def)
  from GetCurrentTick_readings [OF readings] obtain s3 es3
    where g: "SOLID_TIMER_GetCurrentTick s2 es = Inr (t0, s3, es3)"
      and r3: "clock_readings es3 = t1 # ts" by blast
  note d3 = GetCurrentTick_delivered [OF g]
  then have npt3: "nw_nsecPerTick s3 = nw_nsecPerTick s"
    using s2 by (simp add: delivered_def)
  from g now npt3 have gettime: "lf_clock_gettime s2 es = Inr ((0, now), s3, es3)"
    by (simp add: lf_clock_gettime_def)
  from ticks npt3 have "nsec_to_ticks (nw_nsecPerTick s3) (ucast d) = Inr n" by simp
  from wait_nsec_returns [OF r3 this reached] obtain s4 es4
    where w: "wait_nsec (ucast d) s3 es3 = Inr (s4, es4)"
      and d4: "delivered s3 es3 s4 es4" by blast
  obtain s5 es5 where e: "snd (lf_critical_section_enter s4 es4) = (s5, es5)"
    by (cases "snd (lf_critical_section_enter s4 es4)")
  define s4' where "s4' = (if critical_section_initialized s4 = False
      then s4\<lparr>critical_section_initialized := True\<rparr> else s4)"
  have s4': "lf_async_event s4' = lf_async_event s4" "nw_nsecPerTick s4' = nw_nsecPerTick s4"
    by (simp_all add: s4'_def)
  from e have e': "SOLID_EnterCriticalSection s4' es4 = (s5, es5)"
    by (simp add: lf_critical_section_enter_def s4'_def)
  from EnterCriticalSection_delivered [OF e'] s4' have d5: "delivered s4 es4 s5 es5"
    by (simp add: delivered_def)
  from d3 d4 d5 have "delivered s2 es s5 es5"
    by (blast intro: delivered_trans)
  then obtain pre where pre: "es = pre @ es5"
      and flag: "lf_async_event s5 = (Notify \<in> set pre)"
    using s2 by (auto simp: delivered_def)
  have "lf_sleep_until_locked wakeup s es =
      Inr (if Notify \<in> set pre then - 1 else 0,
           if Notify \<in> set pre then s5\<lparr>lf_async_event := False\<rparr> else s5, es5)"
    using gettime duration w e flag
    by (simp add: lf_sleep_until_locked_def s2_def [symmetric])
  with pre show ?thesis by blast
qed

theorem sleep_until_reports_async_event_witness:
  "clock_readings [Tick 0, Tick 0, Notify, Tick 10, Tick 1000, Tick 2000] = 0 # 0 # [10, 1000, 2000]
   \<and> ticks_to_nsec (nw_nsecPerTick running_1GHz) 0 = Inr 0
   \<and> sub_instant 1000 0 = Inr 1000 \<and> 0 \<le> sint (1000 :: interval_t)
   \<and> nsec_to_ticks (nw_nsecPerTick running_1GHz) (ucast (1000 :: interval_t)) = Inr 1000
   \<and> (\<exists>t \<in> set (0 # [10, 1000, 2000 :: 64 word]). 0 + 1000 \<le> t)
   \<and> (\<exists>pre es' s'.
         [Tick 0, Tick 0, Notify, Tick 10, Tick 1000, Tick 2000] = pre @ es' \<and>
         lf_sleep_until_locked 1000 running_1GHz
           [Tick 0, Tick 0, Notify, Tick 10, Tick 1000, Tick 2000] =
         Inr (if Notify \<in> set pre then - 1 else 0, s', es'))
   \<and> lf_sleep_until_locked 1000 running_1GHz
         [Tick 0, Tick 0, Notify, Tick 10, Tick 1000, Tick 2000]
       = Inr (- 1, running_1GHz, [Tick 2000])
   \<and> lf_sleep_until_locked 1000 running_1GHz [Tick 0, Tick 0, Tick 10, Tick 1000, Tick 2000]
       = Inr (0, running_1GHz, [Tick 2000])"
proof -
  have r: "clock_readings [Tick 0, Tick 0, Notify, Tick 10, Tick 1000, Tick 2000]
      = 0 # 0 # [10, 1000, 2000]"
    by simp
  have now: "ticks_to_nsec (nw_nsecPerTick running_1GHz) 0 = Inr 0"
    by (simp add: running_1GHz_eq sleep_eval)
  have d: "sub_instant 1000 0 = Inr 1000" "0 \<le> sint (1000 :: interval_t)"
    by (simp_all add: sub_instant_def)
  have n: "nsec_to_ticks (nw_nsecPerTick running_1GHz) (ucast (1000 :: interval_t)) = Inr 1000"
    by (simp add: running_1GHz_eq sleep_eval)
  have reach: "\<exists>t \<in> set (0 # [10, 1000, 2000 :: 64 word]). 0 + 1000 \<le> t"
    by simp
  have run1: "lf_sleep_until_locked 1000 running_1GHz
         [Tick 0, Tick 0, Notify, Tick 10, Tick 1000, Tick 2000]
       = Inr (- 1, running_1GHz, [Tick 2000])"
    by (simp add: running_1GHz_eq sleep_eval)
  have run0: "lf_sleep_until_locked 1000 running_1GHz
         [Tick 0, Tick 0, Tick 10, Tick 1000, Tick 2000]
       = Inr (0, running_1GHz, [Tick 2000])"
    by (simp add: running_1GHz_eq sleep_eval)
  from sleep_until_reports_async_event [OF r now d n reach] r now d n reach run1 run0
  show ?thesis by blast
qed

text \<open>The busy wait returns with the first clock reading at or after its deadline,
  whatever notifications arrive before: every reading it consumed earlier is below the
  deadline.\<close>

lemma wait_loop_polls_to_deadline:
  "wait_loop until s es = Inr (s', es') \<Longrightarrow>
     \<exists>pre t. es = pre @ Tick t # es' \<and> until \<le> t \<and> (\<forall>t' \<in> set (clock_readings pre). t' < until)"
proof (induction es arbitrary: s)
  case Nil
  then show ?case by simp
next
  case (Cons e es)
  show ?case
  proof (cases e)
    case Notify
    with Cons.prems have "wait_loop until (snd (lf_notify_of_event s)) es = Inr (s', es')"
      by simp
    from Cons.IH [OF this] obtain pre t
      where "es = pre @ Tick t # es'" "until \<le> t" "\<forall>t' \<in> set (clock_readings pre). t' < until"
      by blast
    then have "e # es = (Notify # pre) @ Tick t # es'" "until \<le> t"
        "\<forall>t' \<in> set (clock_readings (Notify # pre)). t' < until"
      using Notify by simp_all
    then show ?thesis by blast
  next
    case (Tick t0)
    show ?thesis
    proof (cases "until \<le> t0")
      case True
      with Cons.prems Tick have "e # es = [] @ Tick t0 # es'" by simp
      with True show ?thesis by fastforce
    next
      case False
      with Cons.prems Tick have "wait_loop until s es = Inr (s', es')" by simp
      from Cons.IH [OF this] obtain pre t
        where "es = pre @ Tick t # es'" "until \<le> t" "\<forall>t' \<in> set (clock_readings pre). t' < until"
        by blast
      then have "e # es = (Tick t0 # pre) @ Tick t # es'" "until \<le> t"
          "\<forall>t' \<in> set (clock_readings (Tick t0 # pre)). t' < until"
        using Tick False by simp_all
      then show ?thesis by blast
    qed
  qed
qed

text \<open>
  Claim C2 says that a notification during the sleep makes it return early, within a
  bounded latency, and not only at the deadline. The busy wait never reads the flag that
  \<^verbatim>\<open>lf_notify_of_event\<close> sets. In this run the sleep is entered at clock reading 0 with
  the wakeup at 1000 ns; the notification arrives before the reading 10; the call goes on
  reading the clock (10, 20) and returns only with the reading 1000, the deadline itself.
\<close>

theorem sleep_until_notified_returns_at_deadline:
  "lf_sleep_until_locked 1000 running_1GHz
     [Tick 0, Tick 0, Notify, Tick 10, Tick 20, Tick 1000, Tick 2000]
   = Inr (- 1, running_1GHz, [Tick 2000])"
  by (simp add: running_1GHz_eq sleep_eval)

text \<open>
  Claim C3 says that the call blocks until the clock reaches the wakeup instant, whatever
  the length of the sleep. The duration is passed to \<^verbatim>\<open>wait_nsec\<close> through a 32-bit
  parameter. In this run the clock reads 1000 ns and the wakeup is 2^32 ns later: the
  low 32 bits of the duration are zero, and the call returns 0 after one more reading
  of the clock (1001), about 4.29 seconds before the wakeup instant 4294968296.
\<close>

theorem sleep_until_long_duration_returns_at_once:
  "lf_sleep_until_locked 4294968296 running_1GHz [Tick 1000, Tick 1001, Tick 1002]
   = Inr (0, running_1GHz, [Tick 1002])"
  by (simp add: running_1GHz_eq sleep_eval)

text \<open>At a return of the sleep, the caller holds the critical section exactly when the
  wakeup instant was not in the past at the clock reading.\<close>

lemma GetCurrentTick_held:
  "SOLID_TIMER_GetCurrentTick s es = Inr (t, s', es') \<Longrightarrow>
     critical_section_held s' = critical_section_held s"
  by (induction s es rule: SOLID_TIMER_GetCurrentTick.induct)
    (auto simp: lf_notify_of_event_def)

lemma EnterCriticalSection_held:
  "SOLID_EnterCriticalSection s es = (s', es') \<Longrightarrow> critical_section_held s'"
proof (induction es arbitrary: s)
  case Nil
  then show ?case by auto
next
  case (Cons e es)
  then show ?case by (cases e) auto
qed

lemma sleep_until_section_held_iff:
  assumes "lf_sleep_until_locked wakeup s es = Inr (r, s', es')"
  shows "critical_section_held s' \<longleftrightarrow>
     (\<exists>now s3 es3 d.
        lf_clock_gettime (s\<lparr>lf_async_event := False, critical_section_held := False\<rparr>) es
          = Inr ((0, now), s3, es3)
        \<and> sub_instant wakeup now = Inr d \<and> 0 \<le> sint d)"
proof -
  define s2 where "s2 = s\<lparr>lf_async_event := False, critical_section_held := False\<rparr>"
  have s2: "snd (lf_critical_section_exit (s\<lparr>lf_async_event := False\<rparr>)) = s2"
    by (simp add: s2_def lf_critical_section_exit_def SOLID_LeaveCriticalSection_def)
  from assms obtain now s3 es3 d
    where g: "lf_clock_gettime s2 es = Inr ((0, now), s3, es3)"
      and d: "sub_instant wakeup now = Inr d"
    by (auto simp: lf_sleep_until_locked_def s2 lf_clock_gettime_def
        split: sum.splits prod.splits)
  from g have "critical_section_held s3 = critical_section_held s2"
    by (auto simp: lf_clock_gettime_def split: sum.splits prod.splits dest: GetCurrentTick_held)
  then have h3: "\<not> critical_section_held s3" by (simp add: s2_def)
  show ?thesis
  proof (cases "sint d < 0")
    case True
    with assms g d have "s' = s3"
      by (simp add: lf_sleep_until_locked_def s2)
    with h3 g d True show ?thesis
      unfolding s2_def [symmetric] by auto
  next
    case False
    with assms g d obtain s4 es4 s5 es5
      where "snd (lf_critical_section_enter s4 es4) = (s5, es5)"
        and s': "s' = s5 \<or> s' = s5\<lparr>lf_async_event := False\<rparr>"
      by (auto simp: lf_sleep_until_locked_def s2 Let_def
          split: sum.splits prod.splits if_splits)
    then have "critical_section_held s5"
      by (auto simp: lf_critical_section_enter_def Let_def dest: EnterCriticalSection_held)
    with s' have "critical_section_held s'" by auto
    with g d False show ?thesis
      unfolding s2_def [symmetric] by auto
  qed
qed

text \<open>
  Claim C8 says that the caller holds the critical section again on every return path,
  also when the wakeup instant is already in the past. On that path the code returns
  right after the clock reading, without entering the section it has left: called with
  the section held, at clock reading 5000 ns with the wakeup at 1000 ns, it returns 0
  with the section released.
\<close>

theorem sleep_until_past_wakeup_leaves_section:
  "critical_section_held running_1GHz
   \<and> lf_sleep_until_locked 1000 running_1GHz [Tick 5000]
       = Inr (0, running_1GHz\<lparr>critical_section_held := False\<rparr>, [])"
  by (simp add: running_1GHz_eq sleep_eval)

section \<open>The clock read is monotonic\<close>

lemma uint_to_double_nonneg: "0 \<le> uint_to_double w"
proof -
  have "(0::rat) \<le> of_nat (unat w)" by (rule of_nat_0_le_iff)
  then show ?thesis
    unfolding uint_to_double_def by (rule round_double_nonneg)
qed

lemma uint_to_double_mono:
  fixes a b :: "'a::len word"
  assumes "a \<le> b"
  shows "uint_to_double a \<le> uint_to_double b"
proof -
  from assms have "unat a \<le> unat b" by (simp add: word_le_nat_alt)
  then have "(of_nat (unat a) :: rat) \<le> of_nat (unat b)" by (rule of_nat_mono)
  moreover have "(0::rat) \<le> of_nat (unat a)" by (rule of_nat_0_le_iff)
  ultimately show ?thesis
    unfolding uint_to_double_def by (rule round_double_mono [rotated])
qed

lemma initialized_tick_length:
  "nw_nsecPerTick (lf_initialize_clock ticksPerSec s) = PlusInfinity
   \<or> (\<exists>c. nw_nsecPerTick (lf_initialize_clock ticksPerSec s) = Finite c \<and> 0 \<le> c)"
  by (simp add: lf_initialize_clock_def round_double_nonneg uint_to_double_nonneg)

lemma ticks_to_nsec_mono:
  assumes c: "0 \<le> c" and le: "t1 \<le> t2"
      and fits: "ticks_to_nsec (Finite c) t2 = Inr n2"
  shows "\<exists>n1. ticks_to_nsec (Finite c) t1 = Inr n1 \<and> 0 \<le> sint n1 \<and> sint n1 \<le> sint n2"
proof -
  let ?x1 = "round_double (uint_to_double t1 * c)"
  let ?x2 = "round_double (uint_to_double t2 * c)"
  have "0 \<le> uint_to_double t1 * c"
    using c uint_to_double_nonneg [of t1] by simp
  moreover have "uint_to_double t1 * c \<le> uint_to_double t2 * c"
    using c uint_to_double_mono [OF le] by (simp add: mult_right_mono)
  ultimately have x: "0 \<le> ?x1" "?x1 \<le> ?x2"
    by (simp_all add: round_double_nonneg round_double_mono)
  then have z: "0 \<le> double_trunc ?x1" "double_trunc ?x1 \<le> double_trunc ?x2"
    by (simp_all add: double_trunc_def floor_mono)
  from fits have z2: "double_trunc ?x2 < 2 ^ 63" and n2: "n2 = word_of_int (double_trunc ?x2)"
    by (auto simp: ticks_to_nsec_def double_to_int64_def Let_def split: if_splits)
  have s: "sint (word_of_int k :: 64 word) = k" if "0 \<le> k" "k < 2 ^ 63" for k
    using that by (simp add: sint_sbintrunc' signed_take_bit_int_eq_self)
  from z z2 have "ticks_to_nsec (Finite c) t1 = Inr (word_of_int (double_trunc ?x1))"
    by (simp add: ticks_to_nsec_def double_to_int64_def Let_def)
  moreover from z z2 have "sint (word_of_int (double_trunc ?x1) :: 64 word) = double_trunc ?x1"
    "sint n2 = double_trunc ?x2"
    unfolding n2 by (simp_all add: s)
  ultimately show ?thesis using z by simp
qed


text \<open>
  Claim C6, amended. After \<^verbatim>\<open>lf_initialize_clock\<close>, take two successive calls of
  \<^verbatim>\<open>lf_clock_gettime\<close> that read the tick counts \<open>t1 \<le> t2\<close>, where the later count
  still converts to an \<^verbatim>\<open>instant_t\<close> (its value in nanoseconds is below 2^63). Both
  calls return 0, and the instant stored by the first is not after the instant stored by
  the second. The proof rests on rounding to the nearest double being monotone.
\<close>

theorem clock_gettime_monotonic:
  assumes init: "nw_nsecPerTick s = nw_nsecPerTick (lf_initialize_clock ticksPerSec s_start)"
      and readings: "clock_readings es = t1 # t2 # ts"
      and le: "t1 \<le> t2"
      and fits: "ticks_to_nsec (nw_nsecPerTick s) t2 = Inr n2"
  shows "\<exists>n1 s1 es1 s2 es2.
           lf_clock_gettime s es = Inr ((0, n1), s1, es1) \<and>
           lf_clock_gettime s1 es1 = Inr ((0, n2), s2, es2) \<and>
           sint n1 \<le> sint n2"
proof -
  from initialized_tick_length [of ticksPerSec s_start] init fits
  obtain c where c: "nw_nsecPerTick s = Finite c" "0 \<le> c"
    by (auto simp: ticks_to_nsec_def)
  from ticks_to_nsec_mono [OF c(2) le fits [unfolded c(1)]]
  obtain n1 where n1: "ticks_to_nsec (Finite c) t1 = Inr n1" "sint n1 \<le> sint n2"
    by blast
  from GetCurrentTick_readings [OF readings] obtain s1 es1
    where g1: "SOLID_TIMER_GetCurrentTick s es = Inr (t1, s1, es1)"
      and r1: "clock_readings es1 = t2 # ts" by blast
  from GetCurrentTick_delivered [OF g1] have npt1: "nw_nsecPerTick s1 = Finite c"
    using c by (simp add: delivered_def)
  from GetCurrentTick_readings [OF r1] obtain s2 es2
    where g2: "SOLID_TIMER_GetCurrentTick s1 es1 = Inr (t2, s2, es2)" by blast
  from GetCurrentTick_delivered [OF g2] have npt2: "nw_nsecPerTick s2 = Finite c"
    using npt1 by (simp add: delivered_def)
  have "lf_clock_gettime s es = Inr ((0, n1), s1, es1)"
    using g1 npt1 n1(1) by (simp add: lf_clock_gettime_def)
  moreover have "lf_clock_gettime s1 es1 = Inr ((0, n2), s2, es2)"
    using g2 npt2 fits c by (simp add: lf_clock_gettime_def)
  ultimately show ?thesis using n1(2) by blast
qed

lemma initialized_1GHz:
  "lf_initialize_clock 1000000000 boot = boot\<lparr>nw_nsecPerTick := Finite 1\<rparr>"
  by (simp add: lf_initialize_clock_def uint_to_double_exact)

theorem clock_gettime_monotonic_witness:
  "nw_nsecPerTick (lf_initialize_clock 1000000000 boot)
     = nw_nsecPerTick (lf_initialize_clock 1000000000 boot)
   \<and> clock_readings [Tick 5, Notify, Tick 9] = 5 # 9 # []
   \<and> (5 :: 64 word) \<le> 9
   \<and> ticks_to_nsec (nw_nsecPerTick (lf_initialize_clock 1000000000 boot)) 9 = Inr 9
   \<and> (\<exists>n1 s1 es1 s2 es2.
         lf_clock_gettime (lf_initialize_clock 1000000000 boot) [Tick 5, Notify, Tick 9]
           = Inr ((0, n1), s1, es1) \<and>
         lf_clock_gettime s1 es1 = Inr ((0, 9), s2, es2) \<and>
         sint n1 \<le> sint (9 :: instant_t))"
proof -
  have r: "clock_readings [Tick 5, Notify, Tick 9] = 5 # 9 # []" by simp
  have le: "(5 :: 64 word) \<le> 9" by simp
  have fits: "ticks_to_nsec (nw_nsecPerTick (lf_initialize_clock 1000000000 boot)) 9 = Inr 9"
    by (simp add: initialized_1GHz sleep_eval)
  from clock_gettime_monotonic [OF refl r le fits] r le fits
  show ?thesis by blast
qed

text \<open>
  Claim C6 as stated covers every call. On a 1 GHz counter the tick count 2^63 is
  2^63 ns, which \<^verbatim>\<open>int64_t\<close> cannot hold: the conversion in \<^verbatim>\<open>lf_clock_gettime\<close> is
  undefined there, after a call at the tick count 2^53 that returned 0.
\<close>

theorem clock_gettime_tick_overflow:
  "lf_clock_gettime (lf_initialize_clock 1000000000 boot)
     [Tick 9007199254740992, Tick 9223372036854775808]
     = Inr ((0, 9007199254740992), lf_initialize_clock 1000000000 boot,
            [Tick 9223372036854775808])
   \<and> lf_clock_gettime (lf_initialize_clock 1000000000 boot) [Tick 9223372036854775808]
     = Inl Undefined"
proof -
  have u: "uint_to_double (9223372036854775808 :: 64 word) = 2 ^ 63"
    using round_double_power2 [of 63] by (simp add: uint_to_double_def)
  have r: "round_double 9223372036854775808 = 9223372036854775808"
    using round_double_power2 [of 63] by simp
  show ?thesis
    by (simp add: initialized_1GHz sleep_eval u r)
qed

section \<open>Formatted output: evaluation and bounds\<close>

lemma parse_format_Nil [simp]: "parse_format [] = Inr []"
  by (subst parse_format.simps) simp

lemma parse_format_literal [simp]:
  "c \<noteq> CHR ''%'' \<Longrightarrow> parse_format (c # fmt) = cons_result (Literal c) (parse_format fmt)"
  by (subst parse_format.simps) simp

lemma parse_format_percent [simp]:
  "parse_format (CHR ''%'' # CHR ''%'' # fmt) = cons_result (Literal CHR ''%'') (parse_format fmt)"
  by (subst parse_format.simps) simp

lemma parse_format_s [simp]:
  "parse_format (CHR ''%'' # CHR ''s'' # fmt) = cons_result ConvStr (parse_format fmt)"
  by (subst parse_format.simps) simp

lemma parse_format_d [simp]:
  "parse_format (CHR ''%'' # CHR ''d'' # fmt) = cons_result (ConvInt Signed 32) (parse_format fmt)"
  by (subst parse_format.simps) simp

lemma parse_format_u [simp]:
  "parse_format (CHR ''%'' # CHR ''u'' # fmt) = cons_result (ConvInt Unsigned 32) (parse_format fmt)"
  by (subst parse_format.simps) simp

lemma parse_format_lld [simp]:
  "parse_format (CHR ''%'' # CHR ''l'' # CHR ''l'' # CHR ''d'' # fmt)
     = cons_result (ConvInt Signed 64) (parse_format fmt)"
  by (subst parse_format.simps) simp

lemma parse_format_llu [simp]:
  "parse_format (CHR ''%'' # CHR ''l'' # CHR ''l'' # CHR ''u'' # fmt)
     = cons_result (ConvInt Unsigned 64) (parse_format fmt)"
  by (subst parse_format.simps) simp

lemma cons_result_Inr [simp]: "cons_result x (Inr xs) = Inr (x # xs)"
  by (simp add: cons_result_def)

lemma cons_result_Inl [simp]: "cons_result x (Inl f) = Inl f"
  by (simp add: cons_result_def)

lemma append_result_Inr [simp]: "append_result ys (Inr xs) = Inr (ys @ xs)"
  by (simp add: append_result_def)

lemma append_result_Inl [simp]: "append_result ys (Inl f) = Inl f"
  by (simp add: append_result_def)

lemma decimal_small: "n < 10 \<Longrightarrow> decimal n = [''0123456789'' ! n]"
  by (subst decimal.simps) simp

lemma decimal_big:
  "10 \<le> n \<Longrightarrow> decimal n = decimal (n div 10) @ [''0123456789'' ! (n mod 10)]"
  by (subst decimal.simps) simp

lemma parse_format_literals:
  "CHR ''%'' \<notin> set fmt \<Longrightarrow> parse_format fmt = Inr (map Literal fmt)"
proof (induction fmt)
  case Nil
  show ?case by (subst parse_format.simps) simp
next
  case (Cons c fmt)
  then have "c \<noteq> CHR ''%''" "parse_format fmt = Inr (map Literal fmt)" by auto
  then show ?case by (subst parse_format.simps) (simp add: cons_result_def)
qed

lemma expand_literals: "expand_directives (map Literal fmt) ap = Inr fmt"
  by (induction fmt) (simp_all add: cons_result_def)

lemma printf_expand_literals:
  "CHR ''%'' \<notin> set fmt \<Longrightarrow> printf_expand fmt ap = Inr fmt"
  by (simp add: printf_expand_def parse_format_literals expand_literals)

lemma printf_expand_s: "printf_expand ''%s'' [ArgStr s] = Inr s"
  by (simp add: printf_expand_def)

text \<open>
  The stores of \<^verbatim>\<open>lf_print\<close> and \<^verbatim>\<open>printf\<close> stay inside the buffer exactly for the
  expansions of at most 1022 and 1023 characters.
\<close>

lemma store_in_bounds: "i < length buf \<Longrightarrow> store buf (int i) c = Inr (buf[i := c])"
  by (simp add: store_def)

lemma store_out_of_bounds: "length buf \<le> i \<Longrightarrow> store buf (int i) c = Inl (OutOfBounds (int i))"
  by (simp add: store_def)

lemma vsnprintf_short:
  assumes "printf_expand fmt ap = Inr out" "length out < n" "length buf = n"
    "length out \<le> 2147483647"
  shows "vsnprintf buf n fmt ap
         = Inr (int (length out), out @ CHR 0x00 # drop (length out + 1) buf)"
  using assms by (auto simp add: vsnprintf_def Let_def min_def)

lemma vsnprintf_long:
  assumes "printf_expand fmt ap = Inr out" "n \<le> length out + 1" "0 < n"
    "length out \<le> 2147483647" "length buf = n"
  shows "vsnprintf buf n fmt ap = Inr (int (length out), take (n - 1) out @ [CHR 0x00])"
  using assms by (auto simp add: vsnprintf_def Let_def min_def)

lemma lf_print_in_bounds:
  assumes out: "printf_expand format ap = Inr out" and len: "length out \<le> 1022"
  shows "lf_print format ap = Inr (out @ [CHR 0x0A, CHR 0x00])"
proof -
  define buf :: string where "buf = replicate 1024 (CHR 0x00)"
  have lb: "length buf = 1024" by (simp add: buf_def)
  define rest where "rest = drop (length out + 1) buf"
  have lr: "length rest = 1023 - length out" by (simp add: rest_def lb)
  with len obtain r rs where rest: "rest = r # rs" by (cases rest) auto
  from out len lb have v: "vsnprintf buf 1024 format ap
      = Inr (int (length out), out @ CHR 0x00 # rest)"
    unfolding rest_def by (intro vsnprintf_short) simp_all
  have s1: "store (out @ CHR 0x00 # rest) (int (length out)) (CHR 0x0A)
      = Inr (out @ CHR 0x0A # rest)"
    by (subst store_in_bounds) simp_all
  have "store (out @ CHR 0x0A # r # rs) (int (length out + 1)) (CHR 0x00)
      = Inr ((out @ [CHR 0x0A]) @ CHR 0x00 # rs)"
    by (subst store_in_bounds) (simp_all add: list_update_append)
  then have s2: "store (out @ CHR 0x0A # rest) (int (length out) + 1) (CHR 0x00)
      = Inr (out @ CHR 0x0A # CHR 0x00 # rs)"
    by (simp add: rest add.commute)
  have "nat (2 + int (length out)) = Suc (Suc (length out))" by simp
  then have t: "SOLID_LOG_write (out @ CHR 0x0A # CHR 0x00 # rs) (2 + int (length out))
      = out @ [CHR 0x0A, CHR 0x00]"
    unfolding SOLID_LOG_write_def by simp
  show ?thesis
    unfolding lf_print_def buf_def [symmetric] by (simp add: v s1 s2 t Let_def)
qed

lemma lf_print_out_of_bounds:
  assumes out: "printf_expand format ap = Inr out"
      and len: "1023 \<le> length out" "length out \<le> 2147483647"
  shows "lf_print format ap
         = Inl (OutOfBounds (if length out = 1023 then 1024 else int (length out)))"
proof -
  define buf :: string where "buf = replicate 1024 (CHR 0x00)"
  have lb: "length buf = 1024" by (simp add: buf_def)
  from out len lb have v: "vsnprintf buf 1024 format ap
      = Inr (int (length out), take 1023 out @ [CHR 0x00])"
    using vsnprintf_long [of format ap out 1024 buf] by simp
  have l: "length (take 1023 out @ [CHR 0x00]) = 1024"
    using len by simp
  show ?thesis
  proof (cases "length out = 1023")
    case True
    have s1: "store (take 1023 out @ [CHR 0x00]) (int 1023) (CHR 0x0A) = Inr (out @ [CHR 0x0A])"
      using True by (subst store_in_bounds) (simp_all add: list_update_append)
    have s2: "store (out @ [CHR 0x0A]) (int 1024) (CHR 0x00) = Inl (OutOfBounds (int 1024))"
      using True by (subst store_out_of_bounds) simp_all
    show ?thesis
      unfolding lf_print_def buf_def [symmetric] using s1 s2 True by (simp add: v Let_def)
  next
    case False
    with len have "1024 \<le> length out" by simp
    then have "store (take 1023 out @ [CHR 0x00]) (int (length out)) (CHR 0x0A)
        = Inl (OutOfBounds (int (length out)))"
      by (subst store_out_of_bounds) simp_all
    then show ?thesis
      unfolding lf_print_def buf_def [symmetric] using False by (simp add: v Let_def)
  qed
qed

lemma printf_in_bounds:
  assumes out: "printf_expand fmt ap = Inr out" and len: "length out \<le> 1023"
  shows "printf fmt ap = Inr (int (length out) + 1, out @ [CHR 0x00])"
proof -
  define buf :: string where "buf = replicate 1024 (CHR 0x00)"
  have lb: "length buf = 1024" by (simp add: buf_def)
  define rest where "rest = drop (length out + 1) buf"
  from out len lb have v: "vsnprintf buf 1024 fmt ap
      = Inr (int (length out), out @ CHR 0x00 # rest)"
    unfolding rest_def by (intro vsnprintf_short) simp_all
  have s1: "store (out @ CHR 0x00 # rest) (int (length out)) (CHR 0x00)
      = Inr (out @ CHR 0x00 # rest)"
    by (subst store_in_bounds) simp_all
  have "nat (int (length out) + 1) = Suc (length out)" by simp
  then have t: "SOLID_LOG_write (out @ CHR 0x00 # rest) (int (length out) + 1) = out @ [CHR 0x00]"
    unfolding SOLID_LOG_write_def by simp
  show ?thesis
    unfolding printf_def buf_def [symmetric] by (simp add: v s1 t Let_def)
qed

lemma printf_out_of_bounds:
  assumes out: "printf_expand fmt ap = Inr out"
      and len: "1024 \<le> length out" "length out \<le> 2147483647"
  shows "printf fmt ap = Inl (OutOfBounds (int (length out)))"
proof -
  define buf :: string where "buf = replicate 1024 (CHR 0x00)"
  have lb: "length buf = 1024" by (simp add: buf_def)
  from out len lb have v: "vsnprintf buf 1024 fmt ap
      = Inr (int (length out), take 1023 out @ [CHR 0x00])"
    using vsnprintf_long [of fmt ap out 1024 buf] by simp
  from len have "store (take 1023 out @ [CHR 0x00]) (int (length out)) (CHR 0x00)
      = Inl (OutOfBounds (int (length out)))"
    by (subst store_out_of_bounds) simp_all
  then show ?thesis
    unfolding printf_def buf_def [symmetric] by (simp add: v Let_def)
qed

text \<open>
  Claim C9 says that every store of \<^verbatim>\<open>lf_print\<close> and of the overridden \<^verbatim>\<open>printf\<close>
  into the 1024-byte buffer is in bounds for every format and argument list. Both use
  the return value of \<^verbatim>\<open>vsnprintf\<close>, the length of the whole expansion, as the index
  of the next store. With the format \<^verbatim>\<open>"%s"\<close> and a string of 1023 characters,
  \<^verbatim>\<open>lf_print\<close> stores the newline at index 1023 and the NUL at index 1024; with a
  string of 1024 characters, \<^verbatim>\<open>printf\<close> stores the NUL at index 1024.
\<close>

theorem print_stores_out_of_bounds:
  "lf_print ''%s'' [ArgStr (replicate 1023 CHR ''x'')] = Inl (OutOfBounds 1024)
   \<and> printf ''%s'' [ArgStr (replicate 1024 CHR ''x'')] = Inl (OutOfBounds 1024)"
proof
  show "lf_print ''%s'' [ArgStr (replicate 1023 CHR ''x'')] = Inl (OutOfBounds 1024)"
    using lf_print_out_of_bounds [OF printf_expand_s, of "replicate 1023 CHR ''x''"]
    by simp
  show "printf ''%s'' [ArgStr (replicate 1024 CHR ''x'')] = Inl (OutOfBounds 1024)"
    using printf_out_of_bounds [OF printf_expand_s, of "replicate 1024 CHR ''x''"]
    by simp
qed

text \<open>The signed 64-bit directive, for comparison, prints the time -1 as it is.\<close>

lemma signed_directive_prints_negative_time:
  "printf_expand ''(%lld, %u)'' [Arg64 18446744073709551615, Arg32 0] = Inr ''(-1, 0)''"
  by (simp add: printf_expand_def signed_decimal_def decimal_small decimal_big)

text \<open>
  Claim C4 says that \<^verbatim>\<open>PRINTF_TIME\<close>, \<^verbatim>\<open>PRINTF_MICROSTEP\<close> and \<^verbatim>\<open>PRINTF_TAG\<close> format a
  signed 64-bit time and an unsigned 32-bit microstep. \<^verbatim>\<open>PRINTF_TIME\<close> is \<^verbatim>\<open>"%llu"\<close>, an
  unsigned 64-bit directive: the tag with time -1 and microstep 0 is printed as
  \<^verbatim>\<open>(18446744073709551615, 0)\<close>. In the second copy of the header \<^verbatim>\<open>PRINTF_TIME\<close> is
  the unsigned 32-bit directive, which does not fit the 64-bit argument.
\<close>

theorem printf_time_reads_unsigned:
  "parse_format PRINTF_TIME = Inr [ConvInt Unsigned 64]
   \<and> parse_format PRINTF_MICROSTEP = Inr [ConvInt Unsigned 32]
   \<and> sint (18446744073709551615 :: instant_t) = - 1
   \<and> printf_expand PRINTF_TAG [Arg64 18446744073709551615, Arg32 0]
       = Inr ''(18446744073709551615, 0)''
   \<and> parse_format PRINTF_TIME_second_header = Inr [ConvInt Unsigned 32]
   \<and> printf_expand PRINTF_TAG_second_header [Arg64 18446744073709551615, Arg32 0]
       = Inl Undefined"
  by (simp add: printf_expand_def PRINTF_TAG_def PRINTF_TIME_def PRINTF_MICROSTEP_def
      PRIu32_def PRINTF_TAG_second_header_def PRINTF_TIME_second_header_def
      signed_decimal_def decimal_small decimal_big)

section \<open>The block returned by calloc\<close>

lemma memset_inside: "p \<le> a \<Longrightarrow> a < p + len \<Longrightarrow> memset m p c len a = c"
  by (simp add: memset_def)

lemma memset_outside: "a < p \<or> p + len \<le> a \<Longrightarrow> memset m p c len a = m a"
  by (auto simp: memset_def)

lemma calloc_request: "fst (calloc malloc m n sz) = malloc (n * sz)"
  by (simp add: calloc_def Let_def)

text \<open>
  Claim C10. \<^verbatim>\<open>calloc(n, size)\<close> asks \<^verbatim>\<open>malloc\<close> for \<open>n * size\<close> bytes, the product
  taken in \<^verbatim>\<open>size_t\<close> with no check for overflow. When the product does not overflow,
  the call returns the null pointer with memory untouched (\<^verbatim>\<open>malloc\<close> failed), or a
  pointer to a block whose \<open>n * size\<close> bytes are all zero.
\<close>

theorem calloc_zeroed:
  fixes n sz :: "'a::len word"
  shows "fst (calloc malloc m n sz) = malloc (n * sz)
   \<and> (unat n * unat sz < 2 ^ LENGTH('a) \<longrightarrow>
        (fst (calloc malloc m n sz) = 0 \<and> snd (calloc malloc m n sz) = m)
        \<or> (fst (calloc malloc m n sz) \<noteq> 0
            \<and> (\<forall>i < unat n * unat sz.
                  snd (calloc malloc m n sz) (fst (calloc malloc m n sz) + i) = 0)))"
proof (intro conjI impI)
  show "fst (calloc malloc m n sz) = malloc (n * sz)"
    by (rule calloc_request)
next
  assume "unat n * unat sz < 2 ^ LENGTH('a)"
  then have len: "unat (n * sz) = unat n * unat sz"
    by (simp add: unat_mult_lem)
  show "(fst (calloc malloc m n sz) = 0 \<and> snd (calloc malloc m n sz) = m)
        \<or> (fst (calloc malloc m n sz) \<noteq> 0
            \<and> (\<forall>i < unat n * unat sz.
                  snd (calloc malloc m n sz) (fst (calloc malloc m n sz) + i) = 0))"
  proof (cases "malloc (n * sz) = 0")
    case True
    then show ?thesis by (simp add: calloc_def)
  next
    case False
    then have "snd (calloc malloc m n sz) = memset m (malloc (n * sz)) 0 (unat n * unat sz)"
      "fst (calloc malloc m n sz) = malloc (n * sz)"
      by (simp_all add: calloc_def Let_def len)
    with False show ?thesis by (simp add: memset_inside)
  qed
qed

theorem calloc_zeroed_witness:
  "unat (3 :: 32 word) * unat (4 :: 32 word) < 2 ^ LENGTH(32)
   \<and> fst (calloc (\<lambda>_. 4096) (\<lambda>_. 255) (3 :: 32 word) 4) = 4096
   \<and> snd (calloc (\<lambda>_. 4096) (\<lambda>_. 255) (3 :: 32 word) 4) (4096 + 0) = 0
   \<and> snd (calloc (\<lambda>_. 4096) (\<lambda>_. 255) (3 :: 32 word) 4) (4096 + 11) = 0"
proof -
  have h: "unat (3 :: 32 word) * unat (4 :: 32 word) < 2 ^ LENGTH(32)" by simp
  have r: "fst (calloc (\<lambda>_. 4096) (\<lambda>_. 255) (3 :: 32 word) 4) = 4096"
    by (simp add: calloc_request)
  from calloc_zeroed [of "\<lambda>_. 4096" "\<lambda>_. 255" "3 :: 32 word" 4] h r
  have z: "\<forall>i < 12. snd (calloc (\<lambda>_. 4096) (\<lambda>_. 255) (3 :: 32 word) 4) (4096 + i) = 0"
    by simp
  from z [rule_format, of 0] z [rule_format, of 11]
  have "snd (calloc (\<lambda>_. 4096) (\<lambda>_. 255) (3 :: 32 word) 4) (4096 + 0) = 0"
    "snd (calloc (\<lambda>_. 4096) (\<lambda>_. 255) (3 :: 32 word) 4) (4096 + 11) = 0"
    by simp_all
  with h r show ?thesis by simp
qed

text \<open>There is no overflow guard: with a 32-bit \<^verbatim>\<open>size_t\<close>, 65536 elements of 65536
  bytes are a request for 0 bytes.\<close>

lemma calloc_overflow_request:
  "fst (calloc malloc m (65536 :: 32 word) 65536) = malloc 0"
proof -
  have "(65536 :: 32 word) * 65536 = 0" by simp
  then show ?thesis by (simp only: calloc_request)
qed

end
